theory Spec2Isabelle
  imports Complex_Main "HOL-Library.Log_Nat" "HOL-Library.Word"
begin

section \<open>Exceptions\<close>

text \<open>
  The exceptions the program can end with.  \<open>Exception msg\<close> is the one that \<^verbatim>\<open>main\<close>
  raises itself; \<open>ZeroDivisionError\<close> and \<open>OverflowError\<close> come from Python's arithmetic;
  \<open>Cv2Error msg\<close> is an error reported by the external resizer.
\<close>

datatype error =
    Exception string
  | ZeroDivisionError
  | OverflowError
  | Cv2Error string

definition bind_err :: "error + 'a \<Rightarrow> ('a \<Rightarrow> error + 'b) \<Rightarrow> error + 'b" where
  "bind_err r f = (case r of Inl e \<Rightarrow> Inl e | Inr v \<Rightarrow> f v)"

section \<open>Python's floating-point arithmetic\<close>

text \<open>
  A Python \<^verbatim>\<open>float\<close> is an IEEE 754 binary64 number.  A finite one is modelled by the
  rational number it denotes.  \<open>round_double\<close> rounds a rational to the nearest binary64
  value, ties to even, with gradual underflow (the exponent of the unit in the last place is
  never below \<open>-1074\<close>); overflow is decided by the operations below, which compare the
  rounded value with \<open>2^1024\<close>.

  \<open>float_exponent x\<close> is \<open>\<lfloor>log\<^sub>2 \<bar>x\<bar>\<rfloor>\<close> for \<open>x \<noteq> 0\<close>, computed from the bit lengths of
  numerator and denominator.
\<close>

definition float_exponent :: "rat \<Rightarrow> int" where
  "float_exponent x =
     (let (p, q) = quotient_of \<bar>x\<bar>; e = bitlen p - bitlen q
      in if 2 powi e \<le> \<bar>x\<bar> then e else e - 1)"

definition round_half_even :: "rat \<Rightarrow> int" where
  "round_half_even r =
     (let f = \<lfloor>r\<rfloor>; d = r - of_int f
      in if d < 1 / 2 then f
         else if 1 / 2 < d then f + 1
         else if even f then f else f + 1)"

definition ulp_exponent :: "rat \<Rightarrow> int" where
  "ulp_exponent x = max (float_exponent x) (- 1022) - 52"

definition round_double :: "rat \<Rightarrow> rat" where
  "round_double x =
     (if x = 0 then 0
      else let e = ulp_exponent x
           in of_int (round_half_even (x / 2 powi e)) * 2 powi e)"

datatype pyfloat = Finite rat | PosInf | NegInf

text \<open>
  \<^verbatim>\<open>a / b\<close> on two Python integers: the correctly rounded quotient; division by zero and
  a quotient too large for a float raise.
\<close>

definition py_truediv :: "int \<Rightarrow> int \<Rightarrow> error + rat" where
  "py_truediv a b =
     (if b = 0 then Inl ZeroDivisionError
      else let q = round_double (of_int a / of_int b)
           in if 2 ^ 1024 \<le> \<bar>q\<bar> then Inl OverflowError else Inr q)"

text \<open>
  \<^verbatim>\<open>n * x\<close> with an integer \<open>n\<close> and a float \<open>x\<close>: the integer is converted to a float first
  (which raises when it is too large), then the two floats are multiplied; a product that
  overflows is an infinity, not an exception.
\<close>

definition py_float_of_int :: "int \<Rightarrow> error + rat" where
  "py_float_of_int n =
     (let q = round_double (of_int n)
      in if 2 ^ 1024 \<le> \<bar>q\<bar> then Inl OverflowError else Inr q)"

definition py_float_mul :: "rat \<Rightarrow> rat \<Rightarrow> pyfloat" where
  "py_float_mul a b =
     (let q = round_double (a * b)
      in if 2 ^ 1024 \<le> q then PosInf else if q \<le> - (2 ^ 1024) then NegInf else Finite q)"

text \<open>\<^verbatim>\<open>int(x)\<close> on a float truncates towards zero and raises on an infinity.\<close>

definition py_int :: "pyfloat \<Rightarrow> error + int" where
  "py_int x =
     (case x of
        Finite q \<Rightarrow> Inr (if 0 \<le> q then \<lfloor>q\<rfloor> else \<lceil>q\<rceil>)
      | PosInf \<Rightarrow> Inl OverflowError
      | NegInf \<Rightarrow> Inl OverflowError)"

text \<open>The expression \<^verbatim>\<open>int(n * scale)\<close> of the scaler.\<close>

definition py_int_times :: "int \<Rightarrow> rat \<Rightarrow> error + int" where
  "py_int_times n scale =
     bind_err (py_float_of_int n) (\<lambda>x. py_int (py_float_mul x scale))"

section \<open>Images\<close>

text \<open>
  A decoded image is a three-dimensional array of unsigned bytes: its \<^verbatim>\<open>shape\<close> (rows,
  columns, channels) and the values, \<open>px img ! r ! c ! ch\<close> for row \<open>r\<close>, column \<open>c\<close> and
  channel \<open>ch\<close>.  In a well-formed array the nesting of \<open>px\<close> agrees with the shape.
\<close>

record image =
  shape0 :: nat
  shape1 :: nat
  shape2 :: nat
  px :: "8 word list list list"

definition valid_image :: "image \<Rightarrow> bool" where
  "valid_image img \<longleftrightarrow>
     length (px img) = shape0 img
     \<and> list_all (\<lambda>row. length row = shape1 img
                       \<and> list_all (\<lambda>p. length p = shape2 img) row) (px img)"

text \<open>The slice \<^verbatim>\<open>img[r, :, channel]\<close>: one value per column.\<close>

definition img_slice :: "image \<Rightarrow> nat \<Rightarrow> nat \<Rightarrow> 8 word list" where
  "img_slice img r channel = map (\<lambda>c. px img ! r ! c ! channel) [0..<shape1 img]"

section \<open>The scaler (\<open>bound_image_to_size\<close>)\<close>

text \<open>
  \<^verbatim>\<open>cv2.resize(img, (width, height))\<close> is an external collaborator: it is a parameter of
  the model, a function that either reports an error message or returns the resampled
  image.  What is known about it is its shape contract: an image it returns has the
  requested height and width and the channels of its input.
\<close>

type_synonym resizer = "image \<Rightarrow> int \<times> int \<Rightarrow> string + image"

definition cv2_resize :: "resizer \<Rightarrow> image \<Rightarrow> int \<times> int \<Rightarrow> error + image" where
  "cv2_resize rs img dsize =
     (case rs img dsize of Inl msg \<Rightarrow> Inl (Cv2Error msg) | Inr out \<Rightarrow> Inr out)"

definition resize_contract :: "resizer \<Rightarrow> bool" where
  "resize_contract rs \<longleftrightarrow>
     (\<forall>img w h out. rs img (w, h) = Inr out \<longrightarrow>
        int (shape0 out) = h \<and> int (shape1 out) = w \<and> shape2 out = shape2 img)"

text \<open>
  \<^verbatim>\<open>
  def bound_image_to_size(img, size):
      if img.shape[0] <= size[0] and img.shape[1] <= size[1]:
          return img
      if (size[0] / max(img.shape[0], size[0])
              < size[1] / max(img.shape[1], size[1])):
          scale = size[0] / img.shape[0]
          return cv2.resize(img, (int(img.shape[1] * scale), size[0]))
      else:
          scale = size[1] / img.shape[1]
          return cv2.resize(img, (size[1], int(img.shape[0] * scale)))
  \<close>
\<close>

definition bound_image_to_size :: "resizer \<Rightarrow> image \<Rightarrow> int \<times> int \<Rightarrow> error + image" where
  "bound_image_to_size rs img sz =
     (if int (shape0 img) \<le> fst sz \<and> int (shape1 img) \<le> snd sz then Inr img
      else
        bind_err (py_truediv (fst sz) (max (int (shape0 img)) (fst sz))) (\<lambda>lhs.
        bind_err (py_truediv (snd sz) (max (int (shape1 img)) (snd sz))) (\<lambda>rhs.
          if lhs < rhs then
            bind_err (py_truediv (fst sz) (int (shape0 img))) (\<lambda>scale.
            bind_err (py_int_times (int (shape1 img)) scale) (\<lambda>w.
              cv2_resize rs img (w, fst sz)))
          else
            bind_err (py_truediv (snd sz) (int (shape1 img))) (\<lambda>scale.
            bind_err (py_int_times (int (shape0 img)) scale) (\<lambda>h.
              cv2_resize rs img (snd sz, h))))))"

definition MAX_SIZE :: "int \<times> int" where
  "MAX_SIZE = (200, 477)"

text \<open>
  A sample resizer, used to run the model on concrete images: nearest-neighbour sampling,
  rejecting an empty target size.  It satisfies the shape contract; the pixel values of the
  real resizer (interpolated) are not modelled.
\<close>

definition nearest_resize :: resizer where
  "nearest_resize img dsize =
     (let w = fst dsize; h = snd dsize in
      if w \<le> 0 \<or> h \<le> 0 then Inl ''empty target size''
      else Inr \<lparr>shape0 = nat h, shape1 = nat w, shape2 = shape2 img,
                px = map (\<lambda>r. map (\<lambda>c. px img ! (r * shape0 img div nat h)
                                               ! (c * shape1 img div nat w))
                                   [0..<nat w])
                         [0..<nat h]\<rparr>)"

text \<open>The \<^verbatim>\<open>shape\<close> of an image, and the shape of what a call returned.\<close>

definition image_shape :: "image \<Rightarrow> nat \<times> nat \<times> nat" where
  "image_shape img = (shape0 img, shape1 img, shape2 img)"

definition result_shape :: "error + image \<Rightarrow> error + nat \<times> nat \<times> nat" where
  "result_shape r = (case r of Inl e \<Rightarrow> Inl e | Inr out \<Rightarrow> Inr (image_shape out))"

text \<open>
  Concrete images for running the model: \<open>h\<close> rows and \<open>w\<close> columns of the pixel
  \<open>[0, 0, 255]\<close> (a red pixel in blue-green-red channel order).
\<close>

definition sample_image :: "nat \<Rightarrow> nat \<Rightarrow> image" where
  "sample_image h w =
     \<lparr>shape0 = h, shape1 = w, shape2 = 3, px = replicate h (replicate w [0, 0, 255])\<rparr>"

section \<open>Column names (\<open>get_col_name\<close>, \<open>iter_col_names\<close>)\<close>

text \<open>Python's \<^verbatim>\<open>string.ascii_uppercase\<close>.\<close>

definition ascii_uppercase :: string where
  "ascii_uppercase = ''ABCDEFGHIJKLMNOPQRSTUVWXYZ''"

text \<open>
  The loop of \<^verbatim>\<open>get_col_name\<close>:
  \<^verbatim>\<open>
    col = ''
    while n > 0:
        col = string.ascii_uppercase[(n - 1) % 26] + col
        n = (n - 1) // 26
    return col
  \<close>
  The loop state is the pair \<open>(n, col)\<close>; \<open>n\<close> is a Python integer.  The index
  \<open>(n - 1) mod 26\<close> is always within \<open>0..25\<close>, so the subscript never raises.
\<close>

function get_col_name_loop :: "int \<Rightarrow> string \<Rightarrow> string" where
  "get_col_name_loop n col =
     (if n > 0
      then get_col_name_loop ((n - 1) div 26) ((ascii_uppercase ! nat ((n - 1) mod 26)) # col)
      else col)"
  by pat_completeness auto
termination
  by (relation "measure (\<lambda>(n, col). nat n)") auto

definition get_col_name :: "int \<Rightarrow> string" where
  "get_col_name n = get_col_name_loop n ''''"

text \<open>
  \<^verbatim>\<open>iter_col_names\<close> is a generator over \<^verbatim>\<open>range(1, n_cols + 1)\<close>; the model is the
  list of the values it yields, in order.
\<close>

definition py_range :: "int \<Rightarrow> int \<Rightarrow> int list" where
  "py_range a b = [a..b - 1]"

definition iter_col_names :: "int \<Rightarrow> string list" where
  "iter_col_names n_cols = map get_col_name (py_range 1 (n_cols + 1))"

text \<open>
  The inverse mapping that the specification asks for (the program itself never decodes a
  name): a name is read as a numeral in bijective base 26, most significant letter first,
  the letters A to Z standing for the digits 1 to 26.
\<close>

definition letter_value :: "char \<Rightarrow> int" where
  "letter_value c = int (of_char c) - 64"

definition decode_col_name :: "string \<Rightarrow> int" where
  "decode_col_name s = foldl (\<lambda>acc c. acc * 26 + letter_value c) 0 s"

text \<open>
  Spreadsheet column order on names: a shorter name comes before a longer one, and names of
  the same length are ordered letter by letter (by character code).
\<close>

fun lex_less :: "string \<Rightarrow> string \<Rightarrow> bool" where
  "lex_less [] [] = False"
| "lex_less [] (y # ys) = True"
| "lex_less (x # xs) [] = False"
| "lex_less (x # xs) (y # ys) =
     ((of_char x :: nat) < of_char y \<or> (x = y \<and> lex_less xs ys))"

definition col_less :: "string \<Rightarrow> string \<Rightarrow> bool" where
  "col_less a b = (length a < length b \<or> (length a = length b \<and> lex_less a b))"

section \<open>The worksheet and the workbook\<close>

text \<open>
  The spreadsheet library is an external collaborator.  The model keeps what the program
  puts into a write-only worksheet: the row heights and column widths it sets, the rows it
  appends (in order), and the conditional-formatting rules it adds (in order, each with the
  cell range it is attached to).
\<close>

record write_only_cell =
  cell_value :: "8 word"
  cell_font_name :: string
  cell_font_size :: int
  cell_vertical :: string

record color_scale_rule =
  start_type :: string
  start_value :: int
  start_color :: string
  end_type :: string
  end_value :: int
  end_color :: string

record worksheet =
  title :: string
  row_heights :: "int \<rightharpoonup> int"
  column_widths :: "string \<rightharpoonup> rat"
  rows :: "write_only_cell list list"
  conditional_formatting :: "(string \<times> color_scale_rule) list"

record workbook =
  sheets :: "worksheet list"

definition create_sheet :: "string \<Rightarrow> worksheet" where
  "create_sheet t =
     \<lparr>title = t, row_heights = Map.empty, column_widths = Map.empty, rows = [],
      conditional_formatting = []\<rparr>"

definition ROW_HEIGHT :: int where
  "ROW_HEIGHT = 5"

text \<open>The float literal \<^verbatim>\<open>2.45\<close>.\<close>

definition COL_WIDTH :: rat where
  "COL_WIDTH = round_double (245 / 100)"

definition FONT_SIZE :: int where
  "FONT_SIZE = 2"

section \<open>The grid writer (\<open>write_img_to_ws\<close>)\<close>

text \<open>
  \<^verbatim>\<open>
  def write_img_to_ws(img, ws):
      for i in range(1, img.shape[0] * img.shape[2] + 1):
          ws.row_dimensions[i].height = ROW_HEIGHT
      for col in iter_col_names(img.shape[1]):
          ws.column_dimensions[col].width = COL_WIDTH
      def cell(val):
          cell = WriteOnlyCell(ws, value=val)
          cell.font = Font(name='Calibri', size=FONT_SIZE)
          cell.alignment = Alignment(vertical='center')
          return cell
      for r in range(img.shape[0]):
          for channel in range(img.shape[2]):
              ws.append([cell(x) for x in img[r, :, channel]])
  \<close>
  Each loop is a \<open>fold\<close> over the values it runs through, with the worksheet as state.
\<close>

definition cell :: "8 word \<Rightarrow> write_only_cell" where
  "cell val =
     \<lparr>cell_value = val, cell_font_name = ''Calibri'', cell_font_size = FONT_SIZE,
      cell_vertical = ''center''\<rparr>"

definition ws_append :: "write_only_cell list \<Rightarrow> worksheet \<Rightarrow> worksheet" where
  "ws_append row ws = ws\<lparr>rows := rows ws @ [row]\<rparr>"

definition write_img_to_ws :: "image \<Rightarrow> worksheet \<Rightarrow> worksheet" where
  "write_img_to_ws img ws =
     (let ws1 = fold (\<lambda>i ws. ws\<lparr>row_heights := (row_heights ws)(i \<mapsto> ROW_HEIGHT)\<rparr>)
                     (py_range 1 (int (shape0 img * shape2 img) + 1)) ws;
          ws2 = fold (\<lambda>col ws. ws\<lparr>column_widths := (column_widths ws)(col \<mapsto> COL_WIDTH)\<rparr>)
                     (iter_col_names (int (shape1 img))) ws1
      in fold (\<lambda>r ws. fold (\<lambda>channel ws. ws_append (map cell (img_slice img r channel)) ws)
                            [0..<shape2 img] ws)
              [0..<shape0 img] ws2)"

section \<open>The color-rule applier (\<open>apply_colors\<close>)\<close>

text \<open>Python's \<^verbatim>\<open>str\<close> on an integer, as the f-string of \<^verbatim>\<open>apply_colors\<close> formats it.\<close>

definition digits :: string where
  "digits = ''0123456789''"

function str_nat :: "nat \<Rightarrow> string" where
  "str_nat n = (if n < 10 then [digits ! n] else str_nat (n div 10) @ [digits ! (n mod 10)])"
  by pat_completeness auto
termination
  by (relation "measure id") auto

definition py_str :: "int \<Rightarrow> string" where
  "py_str i = (if i < 0 then CHR ''-'' # str_nat (nat (- i)) else str_nat (nat i))"

text \<open>
  \<^verbatim>\<open>
  def apply_colors(ws, n_rows, n_cols):
      rgb = ['0000FF', '00FF00', 'FF0000']
      end_col = get_col_name(n_cols)
      for r in range(1, n_rows + 1):
          rule = ColorScaleRule(
              start_type='num', start_value=0, start_color='000000',
              end_type='num', end_value=255, end_color=rgb[(r - 1) % 3])
          ws.conditional_formatting.add(f'A{r}:{end_col}{r}', rule)
  \<close>
  The index \<open>(r - 1) mod 3\<close> is within \<open>0..2\<close>, so the subscript never raises.
\<close>

definition rgb :: "string list" where
  "rgb = [''0000FF'', ''00FF00'', ''FF0000'']"

definition apply_colors :: "worksheet \<Rightarrow> int \<Rightarrow> int \<Rightarrow> worksheet" where
  "apply_colors ws n_rows n_cols =
     (let end_col = get_col_name n_cols
      in fold (\<lambda>r ws. ws\<lparr>conditional_formatting := conditional_formatting ws @
                  [(''A'' @ py_str r @ '':'' @ end_col @ py_str r,
                    \<lparr>start_type = ''num'', start_value = 0, start_color = ''000000'',
                     end_type = ''num'', end_value = 255,
                     end_color = rgb ! nat ((r - 1) mod 3)\<rparr>)]\<rparr>)
              (py_range 1 (n_rows + 1)) ws)"


section \<open>The program (\<open>main\<close>)\<close>

text \<open>
  The collaborators of \<^verbatim>\<open>main\<close>: the image decoder (\<^verbatim>\<open>cv2.imread\<close>, which returns
  \<^verbatim>\<open>None\<close> when it cannot load the file), the resizer, and \<^verbatim>\<open>Path(image).stem\<close>.  The
  files written are a map from paths to workbooks; \<^verbatim>\<open>wb.save\<close> is the only statement that
  writes one, and it is taken to succeed.
  \<^verbatim>\<open>
  def main(image, output=None):
      img = cv2.imread(image)
      if img is None:
          raise Exception(f'Failed to load image "{image}".')
      img = bound_image_to_size(img, MAX_SIZE)
      wb = Workbook(write_only=True)
      ws = wb.create_sheet(title='Image')
      write_img_to_ws(img, ws)
      apply_colors(ws, img.shape[0] * img.shape[2], img.shape[1])
      if output is None:
          output = Path(image).stem + '.xlsx'
      wb.save(output)
  \<close>
  The result is the exception the run ended with, if any, and the files after the run.
\<close>

record env =
  imread :: "string \<Rightarrow> image option"
  resize :: resizer
  path_stem :: "string \<Rightarrow> string"

definition failed_to_load :: "string \<Rightarrow> string" where
  "failed_to_load image_path = ''Failed to load image '' @ [CHR 0x22] @ image_path @ [CHR 0x22] @ ''.''"

definition main ::
  "env \<Rightarrow> string \<Rightarrow> string option \<Rightarrow> (string \<rightharpoonup> workbook)
     \<Rightarrow> error option \<times> (string \<rightharpoonup> workbook)" where
  "main env image_path output files =
     (case imread env image_path of
        None \<Rightarrow> (Some (Exception (failed_to_load image_path)), files)
      | Some img0 \<Rightarrow>
          (case bound_image_to_size (resize env) img0 MAX_SIZE of
             Inl e \<Rightarrow> (Some e, files)
           | Inr img \<Rightarrow>
               (let ws = write_img_to_ws img (create_sheet ''Image'');
                    ws = apply_colors ws (int (shape0 img * shape2 img)) (int (shape1 img));
                    out = (case output of None \<Rightarrow> path_stem env image_path @ ''.xlsx''
                                         | Some p \<Rightarrow> p)
                in (None, files(out \<mapsto> \<lparr>sheets = [ws]\<rparr>)))))"

section \<open>Properties of the floating-point model\<close>

lemma bitlen_powi:
  assumes "0 < p"
  shows "(2::rat) powi (bitlen p - 1) \<le> of_int p" and "(of_int p :: rat) < 2 powi (bitlen p)"
proof -
  have b: "2 ^ nat (bitlen p - 1) \<le> p" "p < 2 ^ nat (bitlen p)"
    using bitlen_bounds [OF assms] by simp_all
  have ge: "1 \<le> bitlen p" using assms bitlen_eq_zero_iff [of p] bitlen_nonneg [of p] by linarith
  have "(2::rat) powi (bitlen p - 1) = of_int (2 ^ nat (bitlen p - 1))"
    using ge by (simp add: power_int_def)
  also have "\<dots> \<le> of_int p" using b(1) by (simp only: of_int_le_iff)
  finally show "(2::rat) powi (bitlen p - 1) \<le> of_int p" .
  have "(of_int p :: rat) < of_int (2 ^ nat (bitlen p))" using b(2) by (simp only: of_int_less_iff)
  also have "\<dots> = 2 powi (bitlen p)" using ge by (simp add: power_int_def)
  finally show "(of_int p :: rat) < 2 powi (bitlen p)" .
qed

lemma float_exponent_bounds:
  assumes "0 < x"
  shows "2 powi (float_exponent x) \<le> x" and "x < 2 powi (float_exponent x + 1)"
proof -
  obtain p q where pq: "quotient_of x = (p, q)" by (cases "quotient_of x")
  have q: "0 < q" using pq by (rule quotient_of_denom_pos)
  have x: "x = of_int p / of_int q" using pq by (rule quotient_of_div)
  have p: "0 < p" using assms q x by (simp add: zero_less_divide_iff)
  let ?e = "bitlen p - bitlen q"
  note bp = bitlen_powi [OF p] and bq = bitlen_powi [OF q]
  have fe: "float_exponent x = (if 2 powi ?e \<le> x then ?e else ?e - 1)"
    using assms pq by (simp add: float_exponent_def)
  have qpos: "(0::rat) < of_int q" using q by simp
  have up: "x < 2 powi (?e + 1)"
  proof -
    have "x * of_int q = of_int p" using x qpos by simp
    also have "\<dots> < 2 powi (bitlen p)" by (rule bp(2))
    also have "\<dots> = 2 powi (?e + 1) * 2 powi (bitlen q - 1)"
      by (simp add: power_int_add [symmetric])
    also have "\<dots> \<le> 2 powi (?e + 1) * of_int q"
      using bq(1) by (intro mult_left_mono) simp_all
    finally show ?thesis using qpos by simp
  qed
  have lo: "(2::rat) powi (?e - 1) \<le> x"
  proof -
    have "(2::rat) powi (?e - 1) * of_int q \<le> 2 powi (?e - 1) * 2 powi (bitlen q)"
      using bq(2) by (intro mult_left_mono) simp_all
    also have "\<dots> = 2 powi (bitlen p - 1)" by (simp add: power_int_add [symmetric])
    also have "\<dots> \<le> of_int p" by (rule bp(1))
    also have "\<dots> = x * of_int q" using x qpos by simp
    finally show ?thesis using qpos by simp
  qed
  show "2 powi (float_exponent x) \<le> x" using lo by (simp add: fe)
  show "x < 2 powi (float_exponent x + 1)"
  proof (cases "2 powi ?e \<le> x")
    case True
    then show ?thesis using up by (simp add: fe)
  next
    case False
    then show ?thesis by (simp add: fe)
  qed
qed

lemma round_half_even_le: "r \<le> of_int k \<Longrightarrow> round_half_even r \<le> k"
proof -
  assume a: "r \<le> of_int k"
  then have f: "\<lfloor>r\<rfloor> \<le> k" by (simp add: floor_le_iff)
  show ?thesis
  proof (cases "\<lfloor>r\<rfloor> = k")
    case True
    then have "r - of_int \<lfloor>r\<rfloor> \<le> 0" using a by simp
    then show ?thesis using True by (simp add: round_half_even_def Let_def)
  next
    case False
    then have "\<lfloor>r\<rfloor> + 1 \<le> k" using f by simp
    then show ?thesis using f by (simp add: round_half_even_def Let_def)
  qed
qed

lemma round_half_even_of_int [simp]: "round_half_even (of_int k) = k"
  by (simp add: round_half_even_def)

lemma round_half_even_upper: "of_int (round_half_even r) \<le> r + 1 / 2"
proof -
  let ?d = "r - of_int \<lfloor>r\<rfloor>"
  consider "?d < 1 / 2" | "1 / 2 < ?d" | "?d = 1 / 2" by linarith
  then show ?thesis
  proof cases
    case 1
    then have "round_half_even r = \<lfloor>r\<rfloor>" by (simp add: round_half_even_def Let_def)
    then show ?thesis using of_int_floor_le [of r] by linarith
  next
    case 2
    then have "round_half_even r = \<lfloor>r\<rfloor> + 1" by (simp add: round_half_even_def Let_def)
    then show ?thesis using 2 by (simp add: algebra_simps)
  next
    case 3
    then have "round_half_even r = \<lfloor>r\<rfloor> \<or> round_half_even r = \<lfloor>r\<rfloor> + 1"
      by (simp add: round_half_even_def Let_def)
    then show ?thesis using 3 of_int_floor_le [of r] by (auto simp: algebra_simps)
  qed
qed

lemma round_half_even_nonneg: "0 \<le> r \<Longrightarrow> 0 \<le> round_half_even r"
  by (auto simp: round_half_even_def Let_def) 


lemma powi2_less_imp_less: "(2::rat) powi a < 2 powi b \<Longrightarrow> a < b"
proof (rule ccontr)
  assume lt: "(2::rat) powi a < 2 powi b" and "\<not> a < b"
  then have "b \<le> a" by simp
  then have "(2::rat) powi b \<le> 2 powi a" by (rule power_int_increasing) simp
  with lt show False by simp
qed

text \<open>Representable bound: a value \<open>m * 2^k\<close> with a mantissa below \<open>2^53\<close>.\<close>

lemma ulp_exponent_le:
  assumes x: "0 < x" and le: "x \<le> of_int m * 2 powi k" and m: "m < 2 ^ 53" and k: "- 1074 \<le> k"
  shows "ulp_exponent x \<le> k"
proof -
  have "2 powi (float_exponent x) \<le> x" using x by (rule float_exponent_bounds)
  also note le
  also have "of_int m * (2::rat) powi k < of_int (2 ^ 53) * 2 powi k"
    using m by (intro mult_strict_right_mono) (simp_all only: of_int_less_iff zero_less_power_int zero_less_numeral)
  also have "\<dots> = 2 powi (53 + k)" by (simp add: power_int_add)
  finally have "float_exponent x < 53 + k"
    by (rule powi2_less_imp_less)
  then show ?thesis using k by (simp add: ulp_exponent_def)
qed

lemma round_double_le:
  assumes x: "0 < x" and le: "x \<le> of_int m * 2 powi k" and m: "m < 2 ^ 53" and k: "- 1074 \<le> k"
  shows "round_double x \<le> of_int m * 2 powi k"
proof -
  let ?u = "ulp_exponent x"
  have u: "?u \<le> k" using assms by (rule ulp_exponent_le)
  let ?Z = "m * 2 ^ nat (k - ?u)"
  have Z: "of_int m * (2::rat) powi k = of_int ?Z * 2 powi ?u"
  proof -
    have "(2::rat) powi k = 2 powi (k - ?u) * 2 powi ?u" by (simp add: power_int_add [symmetric])
    also have "(2::rat) powi (k - ?u) = 2 ^ nat (k - ?u)" using u by (simp add: power_int_def)
    finally show ?thesis by simp
  qed
  have "x / 2 powi ?u \<le> of_int ?Z" using le unfolding Z by (simp add: field_simps)
  then have "round_half_even (x / 2 powi ?u) \<le> ?Z" by (rule round_half_even_le)
  then have "(of_int (round_half_even (x / 2 powi ?u)) :: rat) \<le> of_int ?Z"
    by (simp only: of_int_le_iff)
  then have "of_int (round_half_even (x / 2 powi ?u)) * (2::rat) powi ?u \<le> of_int ?Z * 2 powi ?u"
    by (intro mult_right_mono) simp_all
  then show ?thesis using x unfolding Z by (simp add: round_double_def Let_def)
qed

lemma round_double_exact:
  assumes pos: "0 < m" and m: "m < 2 ^ 53" and k: "- 1074 \<le> k"
  shows "round_double (of_int m * 2 powi k) = of_int m * 2 powi k"
proof -
  let ?x = "of_int m * (2::rat) powi k"
  let ?u = "ulp_exponent ?x"
  have x: "0 < ?x" using pos by simp
  have u: "?u \<le> k" using x _ m k by (rule ulp_exponent_le) simp
  let ?Z = "m * 2 ^ nat (k - ?u)"
  have Z: "?x = of_int ?Z * 2 powi ?u"
  proof -
    have "(2::rat) powi k = 2 powi (k - ?u) * 2 powi ?u" by (simp add: power_int_add [symmetric])
    also have "(2::rat) powi (k - ?u) = 2 ^ nat (k - ?u)" using u by (simp add: power_int_def)
    finally show ?thesis by simp
  qed
  have "?x / 2 powi ?u = of_int ?Z" by (subst Z) simp
  then have "round_half_even (?x / 2 powi ?u) = ?Z" by (simp only: round_half_even_of_int)
  then have "round_double ?x = of_int ?Z * 2 powi ?u"
    using x by (simp add: round_double_def Let_def)
  also have "\<dots> = ?x" by (rule Z [symmetric])
  finally show ?thesis .
qed

lemma round_double_of_int:
  "0 \<le> n \<Longrightarrow> n < 2 ^ 53 \<Longrightarrow> round_double (of_int n) = of_int n"
  using round_double_exact [of n 0] by (cases "n = 0") (simp_all add: round_double_def)

lemma round_double_nonneg: "0 \<le> x \<Longrightarrow> 0 \<le> round_double x"
  by (simp add: round_double_def Let_def round_half_even_nonneg)

lemma round_double_rel_error:
  assumes "2 powi (- 1022) \<le> x"
  shows "round_double x \<le> x * (1 + 2 powi (- 53))"
proof -
  have x: "0 < x" using assms by (rule less_le_trans [rotated]) simp
  let ?e = "float_exponent x"
  have "(2::rat) powi (- 1022) < 2 powi (?e + 1)"
    using assms float_exponent_bounds(2) [OF x] by (rule le_less_trans)
  then have "- 1022 < ?e + 1" by (rule powi2_less_imp_less)
  then have u: "ulp_exponent x = ?e - 52" by (simp add: ulp_exponent_def)
  have "round_double x = of_int (round_half_even (x / 2 powi (?e - 52))) * 2 powi (?e - 52)"
    using x by (simp add: round_double_def Let_def u)
  also have "\<dots> \<le> (x / 2 powi (?e - 52) + 1 / 2) * 2 powi (?e - 52)"
    by (intro mult_right_mono round_half_even_upper) simp
  also have "\<dots> = x + 2 powi (?e - 52) / 2" by (simp add: field_simps)
  also have "(2::rat) powi (?e - 52) / 2 = 2 powi ?e * 2 powi (- 53)"
    by (simp add: power_int_diff power_int_minus field_simps)
  also have "x + 2 powi ?e * 2 powi (- 53) \<le> x + x * 2 powi (- 53)"
    using float_exponent_bounds(1) [OF x] by (intro add_left_mono mult_right_mono) simp_all
  finally show ?thesis by (simp add: algebra_simps)
qed



lemma round_double_one: "round_double 1 = 1"
  using round_double_of_int [of 1] by simp

lemma py_truediv_self: "0 < a \<Longrightarrow> py_truediv a a = Inr 1"
  by (simp add: py_truediv_def round_double_one)

lemma py_truediv_zero: "b \<noteq> 0 \<Longrightarrow> py_truediv 0 b = Inr 0"
  by (simp add: py_truediv_def round_double_def)

lemma py_truediv_frac:
  assumes a: "0 \<le> a" "a < b" "a < 2 ^ 53"
  shows "\<exists>q. py_truediv a b = Inr q \<and> 0 \<le> q \<and> q < 1"
proof (cases "a = 0")
  case True
  then show ?thesis using a by (simp add: py_truediv_zero)
next
  case False
  let ?x = "of_int a / of_int b :: rat"
  have b: "0 < b" using a by simp
  have x: "0 < ?x" using False a b by simp
  have "a * 2 ^ 53 \<le> (2 ^ 53 - 1) * b" using a by simp
  then have "(of_int (a * 2 ^ 53) :: rat) \<le> of_int ((2 ^ 53 - 1) * b)"
    by (simp only: of_int_le_iff)
  then have le: "?x \<le> of_int (2 ^ 53 - 1) * 2 powi (- 53)"
    using b by (simp add: field_simps power_int_minus)
  have "round_double ?x \<le> of_int (2 ^ 53 - 1) * 2 powi (- 53)"
    using x le by (rule round_double_le) simp_all
  also have "\<dots> < 1" by (simp add: power_int_minus)
  finally have lt: "round_double ?x < 1" .
  have ge: "0 \<le> round_double ?x" using x by (intro round_double_nonneg) simp
  have "\<bar>round_double ?x\<bar> < 2 ^ 1024" using lt ge by simp
  then show ?thesis using lt ge b by (simp add: py_truediv_def Let_def)
qed

lemma py_truediv_rel:
  assumes a: "0 < a" "a < b" "b < 2 ^ 53"
  shows "\<exists>q. py_truediv a b = Inr q \<and> q \<le> (of_int a / of_int b) * (1 + 2 powi (- 53))"
proof -
  let ?x = "of_int a / of_int b :: rat"
  obtain q where q: "py_truediv a b = Inr q" "0 \<le> q" "q < 1"
    using py_truediv_frac [of a b] a by auto
  have b: "0 < b" using a by simp
  have "q = round_double ?x" using q(1) b by (simp add: py_truediv_def Let_def split: if_splits)
  moreover have "round_double ?x \<le> ?x * (1 + 2 powi (- 53))"
  proof (rule round_double_rel_error)
    have "(2::rat) powi (- 1022) \<le> 2 powi (- 53)" by (rule power_int_increasing) simp_all
    also have "\<dots> = 1 / of_int (2 ^ 53)" by (simp add: power_int_minus field_simps)
    also have "\<dots> \<le> 1 / of_int b"
      using a b by (intro divide_left_mono) (simp_all only: of_int_le_iff of_int_0_less_iff, simp_all)
    also have "\<dots> \<le> ?x" using a b by (simp add: field_simps)
    finally show "2 powi (- 1022) \<le> ?x" .
  qed
  ultimately show ?thesis using q(1) by simp
qed

lemma py_truediv_max:
  assumes "0 \<le> b" "b < 2 ^ 53" "0 < d"
  shows "\<exists>q. py_truediv b (max d b) = Inr q \<and> 0 \<le> q \<and> q \<le> 1
             \<and> (d \<le> b \<longrightarrow> q = 1) \<and> (b < d \<longrightarrow> q < 1)"
proof (cases "d \<le> b")
  case True
  then have "max d b = b" "0 < b" using assms by simp_all
  then show ?thesis using True by (simp add: py_truediv_self)
next
  case False
  then have m: "max d b = d" and lt: "b < d" by simp_all
  from py_truediv_frac [OF assms(1) lt assms(2)] show ?thesis using lt by (auto simp: m)
qed

lemma py_int_times_bound:
  assumes d: "0 \<le> d" "d < 2 ^ 53" and s: "0 \<le> s" and B: "0 \<le> B" "B < 2 ^ 52"
    and le: "of_int d * s \<le> of_int B + 1 / 2"
  shows "py_int_times d s = Inr \<lfloor>round_double (of_int d * s)\<rfloor>
         \<and> 0 \<le> \<lfloor>round_double (of_int d * s)\<rfloor> \<and> \<lfloor>round_double (of_int d * s)\<rfloor> \<le> B"
proof -
  let ?p = "of_int d * s :: rat"
  let ?q = "round_double ?p"
  have p0: "0 \<le> ?p" using d s by simp
  have q0: "0 \<le> ?q" using p0 by (rule round_double_nonneg)
  have half: "of_int B + 1 / 2 = of_int (2 * B + 1) * (2::rat) powi (- 1)"
    by (simp add: power_int_minus field_simps)
  have qB: "?q \<le> of_int B + 1 / 2"
  proof (cases "?p = 0")
    case True
    then show ?thesis using B by (simp add: round_double_def)
  next
    case False
    with p0 have "0 < ?p" by (metis order_le_less)
    then have "?q \<le> of_int (2 * B + 1) * 2 powi (- 1)"
      using le [unfolded half] by (rule round_double_le) (use B in simp_all)
    then show ?thesis by (simp only: half)
  qed
  have "of_int B + 1 / 2 < (of_int (B + 1) :: rat)" by simp
  with qB have "?q < of_int (B + 1)" by (rule le_less_trans)
  then have fl: "\<lfloor>?q\<rfloor> \<le> B" by (simp add: floor_less_iff [symmetric] del: of_int_add) 
  have "(of_int B :: rat) < of_int (2 ^ 52)" using B by (simp only: of_int_less_iff)
  then have "?q < 2 ^ 1024" using qB by simp
  then have mul: "py_float_mul (of_int d) s = Finite ?q"
    using q0 by (simp add: py_float_mul_def Let_def)
  have conv: "py_float_of_int d = Inr (of_int d)"
  proof -
    have "(of_int d :: rat) < of_int (2 ^ 53)" using d by (simp only: of_int_less_iff)
    then have "\<bar>of_int d :: rat\<bar> < 2 ^ 1024" using d by simp
    then show ?thesis using d by (simp add: py_float_of_int_def round_double_of_int Let_def)
  qed
  show ?thesis using mul conv q0 fl by (simp add: py_int_times_def bind_err_def py_int_def)
qed


text \<open>
  The heart of the scaler: dimension 1 exceeds its bound and its ratio is not larger than
  that of dimension 2.  Then the scale is below one and the other dimension, scaled,
  stays within its bound.
\<close>

lemma scale_core:
  assumes d1: "0 < d1" "d1 < 2 ^ 53" and d2: "0 < d2" "d2 < 2 ^ 53"
    and b1: "0 \<le> b1" "b1 < 2 ^ 52" and b2: "0 \<le> b2" "b2 < 2 ^ 52"
    and q1: "py_truediv b1 (max d1 b1) = Inr q1"
    and q2: "py_truediv b2 (max d2 b2) = Inr q2"
    and le: "q1 \<le> q2" and big: "b1 < d1"
  shows "py_truediv b1 d1 = Inr q1 \<and> 0 \<le> q1 \<and> q1 < 1
         \<and> py_int_times d2 q1 = Inr \<lfloor>round_double (of_int d2 * q1)\<rfloor>
         \<and> 0 \<le> \<lfloor>round_double (of_int d2 * q1)\<rfloor>
         \<and> \<lfloor>round_double (of_int d2 * q1)\<rfloor> \<le> b2"
proof -
  have m1: "max d1 b1 = d1" using big by simp
  have s: "py_truediv b1 d1 = Inr q1" using q1 by (simp add: m1)
  have r: "0 \<le> q1" "q1 < 1"
    using py_truediv_frac [of b1 d1] b1 big s by auto
  have D2: "(0::rat) < of_int d2" using d2 by simp
  have prod: "of_int d2 * q1 \<le> of_int b2 + 1 / 2"
  proof (cases "d2 \<le> b2")
    case True
    have "of_int d2 * q1 \<le> of_int d2 * 1"
      using r D2 by (intro mult_left_mono) simp_all
    also have "\<dots> \<le> of_int b2" using True by simp
    finally show ?thesis by simp
  next
    case False
    then have m2: "max d2 b2 = d2" and lt: "b2 < d2" by simp_all
    show ?thesis
    proof (cases "b2 = 0")
      case True
      then have "q2 = 0" using q2 d2 by (simp add: m2 py_truediv_zero)
      then have "q1 = 0" using le r by simp
      then show ?thesis using b2 by simp
    next
      case False
      then have pos: "0 < b2" using b2 by simp
      have "d2 < 2 ^ 53" by (rule d2)
      from py_truediv_rel [OF pos lt this] q2
      have q2le: "q2 \<le> (of_int b2 / of_int d2) * (1 + 2 powi (- 53))" by (simp add: m2)
      have "of_int d2 * q1 \<le> of_int d2 * q2"
        using le D2 by (intro mult_left_mono) simp_all
      also have "\<dots> \<le> of_int d2 * ((of_int b2 / of_int d2) * (1 + 2 powi (- 53)))"
        using q2le D2 by (intro mult_left_mono) simp_all
      also have "\<dots> = of_int b2 + of_int b2 * 2 powi (- 53)"
        using D2 by (simp add: field_simps)
      also have "\<dots> \<le> of_int b2 + of_int (2 ^ 52) * 2 powi (- 53)"
        using b2 by (intro add_left_mono mult_right_mono) (simp_all only: of_int_le_iff, simp_all)
      also have "\<dots> = of_int b2 + 1 / 2" by (simp add: power_int_minus)
      finally show ?thesis .
    qed
  qed
  from py_int_times_bound [OF _ d2(2) r(1) b2 prod] d2(1) s r show ?thesis by simp
qed

section \<open>Properties of the scaler\<close>

subsection \<open>The sample images and the sample resizer\<close>

lemma image_shape_sample [simp]: "image_shape (sample_image h w) = (h, w, 3)"
  by (simp add: image_shape_def sample_image_def)

lemma shape_sample [simp]:
  "shape0 (sample_image h w) = h" "shape1 (sample_image h w) = w" "shape2 (sample_image h w) = 3"
  by (simp_all add: sample_image_def)

lemma valid_sample_image: "valid_image (sample_image h w)"
  by (simp add: valid_image_def sample_image_def list_all_iff)

lemma nearest_resize_contract: "resize_contract nearest_resize"
  by (auto simp: resize_contract_def nearest_resize_def Let_def split: if_splits)

lemma nearest_resize_shape:
  "0 < w \<Longrightarrow> 0 < h \<Longrightarrow>
   result_shape (cv2_resize nearest_resize img (w, h)) = Inr (nat h, nat w, shape2 img)"
  by (simp add: result_shape_def cv2_resize_def nearest_resize_def image_shape_def)

lemma nearest_resize_empty:
  "w \<le> 0 \<or> h \<le> 0 \<Longrightarrow>
   cv2_resize nearest_resize img (w, h) = Inl (Cv2Error ''empty target size'')"
  by (auto simp: cv2_resize_def nearest_resize_def)

lemma not_overflow: "\<bar>q\<bar> \<le> 2 ^ 53 \<Longrightarrow> \<not> 2 ^ 1024 \<le> \<bar>q :: rat\<bar>"
proof -
  assume "\<bar>q\<bar> \<le> 2 ^ 53"
  also have "(2::rat) ^ 53 < 2 ^ 1024" by (rule power_strict_increasing) simp_all
  finally show ?thesis by simp
qed

lemma py_truediv_eval:
  assumes "b \<noteq> 0" and "round_double (of_int a / of_int b) = q" and "\<bar>q\<bar> \<le> 2 ^ 53"
  shows "py_truediv a b = Inr q"
  using assms(1,2) not_overflow [OF assms(3)] by (simp add: py_truediv_def)

lemma py_int_times_eval:
  assumes n: "0 \<le> n" "n < 2 ^ 53"
    and q: "round_double (of_int n * s) = q" "0 \<le> q" "q \<le> 2 ^ 53"
  shows "py_int_times n s = Inr \<lfloor>q\<rfloor>"
proof -
  have "(of_int n :: rat) < of_int (2 ^ 53)" using n by (simp only: of_int_less_iff)
  then have "\<bar>of_int n :: rat\<bar> \<le> 2 ^ 53" using n by simp
  then have conv: "py_float_of_int n = Inr (of_int n)"
    using n not_overflow [of "of_int n"]
    by (simp add: py_float_of_int_def round_double_of_int Let_def)
  have "\<bar>q\<bar> \<le> 2 ^ 53" using q by simp
  then have "\<not> 2 ^ 1024 \<le> q" using not_overflow [of q] q(2) by simp
  then have "py_float_mul (of_int n) s = Finite q"
    using q by (simp add: py_float_mul_def)
  then show ?thesis using conv q by (simp add: py_int_times_def bind_err_def py_int_def)
qed

lemma truediv_200_400: "py_truediv 200 400 = Inr (1 / 2)"
proof (rule py_truediv_eval)
  show "round_double (rat_of_int 200 / rat_of_int 400) = 1 / 2" by code_simp
qed simp_all

lemma truediv_477_800: "py_truediv 477 800 = Inr (1342635638909829 / 2251799813685248)"
proof (rule py_truediv_eval)
  show "round_double (rat_of_int 477 / rat_of_int 800) = 1342635638909829 / 2251799813685248"
    by code_simp
qed simp_all

lemma int_times_800_half: "py_int_times 800 (1 / 2) = Inr 400"
proof -
  have "round_double (rat_of_int 800 * (1 / 2)) = 400" by code_simp
  from py_int_times_eval [OF _ _ this] show ?thesis by simp
qed

lemma truediv_477_1000: "py_truediv 477 1000 = Inr (4296434044511453 / 9007199254740992)"
proof (rule py_truediv_eval)
  show "round_double (rat_of_int 477 / rat_of_int 1000) = 4296434044511453 / 9007199254740992"
    by code_simp
qed simp_all

lemma int_times_1_scale: "py_int_times 1 (4296434044511453 / 9007199254740992) = Inr 0"
proof -
  let ?s = "4296434044511453 / 9007199254740992 :: rat"
  have rd: "round_double (rat_of_int 1 * ?s) = ?s" by code_simp
  have fl: "\<lfloor>?s\<rfloor> = 0" by code_simp
  have "py_int_times 1 ?s = Inr \<lfloor>?s\<rfloor>"
    by (rule py_int_times_eval [OF _ _ rd]) simp_all
  then show ?thesis by (simp only: fl)
qed

lemma truediv_200_200: "py_truediv 200 200 = Inr 1"
  by (simp add: py_truediv_self)

lemma scaler_400x800:
  assumes "shape0 img = 400" "shape1 img = 800"
  shows "bound_image_to_size rs img (200, 477) = cv2_resize rs img (400, 200)"
  using assms
  by (simp add: bound_image_to_size_def bind_err_def truediv_200_400 truediv_477_800
      int_times_800_half)

lemma scaler_1x1000:
  assumes "shape0 img = 1" "shape1 img = 1000"
  shows "bound_image_to_size rs img (200, 477) = cv2_resize rs img (477, 0)"
  using assms
  by (simp add: bound_image_to_size_def bind_err_def truediv_200_200 truediv_477_1000
      int_times_1_scale)

text \<open>
  The product is rounded before it is truncated, so the result can be one less than the
  floor of the exact product of the dimension and the exact ratio: for 49 rows and 23373
  columns and the width bound 477, the exact value \<open>49 * 477 / 23373\<close> is 1, but the scale
  is the float next to \<open>1/49\<close> and \<open>49\<close> times it rounds to the float just below 1.
\<close>

lemma truediv_477_23373: "py_truediv 477 23373 = Inr (5882252574524729 / 288230376151711744)"
proof (rule py_truediv_eval)
  show "round_double (rat_of_int 477 / rat_of_int 23373)
        = 5882252574524729 / 288230376151711744"
    by code_simp
qed simp_all

lemma int_times_49_scale: "py_int_times 49 (5882252574524729 / 288230376151711744) = Inr 0"
proof -
  let ?s = "5882252574524729 / 288230376151711744 :: rat"
  let ?q = "9007199254740991 / 9007199254740992 :: rat"
  have rd: "round_double (rat_of_int 49 * ?s) = ?q" by code_simp
  have fl: "\<lfloor>?q\<rfloor> = 0" by code_simp
  have "py_int_times 49 ?s = Inr \<lfloor>?q\<rfloor>"
    by (rule py_int_times_eval [OF _ _ rd]) simp_all
  then show ?thesis by (simp only: fl)
qed

lemma exact_floor_49: "\<lfloor>49 * 477 / 23373 :: rat\<rfloor> = 1"
  by code_simp

subsection \<open>The claims about the scaler\<close>

text \<open>
  Claim C1.  Whenever the scaler resizes (the height exceeds its bound or the width does),
  it asks the resizer for a size in which the limiting dimension is exactly its bound and
  the other one is the floor of the floating-point product of the original dimension and the
  scale, and is at most its bound; the scale is the quotient bound / dimension of the
  limiting dimension and is strictly below one.  An image that the resizer returns has that
  size.  Image dimensions are positive and below \<open>2^53\<close>, the bounds are below \<open>2^52\<close>:
  in that range every integer involved is a floating-point number.
\<close>

theorem bound_image_to_size_resizes:
  assumes dims: "0 < shape0 img" "int (shape0 img) < 2 ^ 53"
                "0 < shape1 img" "int (shape1 img) < 2 ^ 53"
    and bnd: "0 \<le> maxH" "maxH < 2 ^ 52" "0 \<le> maxW" "maxW < 2 ^ 52"
    and big: "maxH < int (shape0 img) \<or> maxW < int (shape1 img)"
    and rs: "resize_contract rs"
  shows "\<exists>scale w h.
           bound_image_to_size rs img (maxH, maxW) = cv2_resize rs img (w, h)
           \<and> (\<forall>out. cv2_resize rs img (w, h) = Inr out \<longrightarrow>
                  int (shape0 out) = h \<and> int (shape1 out) = w)
           \<and> 0 \<le> scale \<and> scale < 1
           \<and> (py_truediv maxH (int (shape0 img)) = Inr scale
                \<and> h = maxH
                \<and> w = \<lfloor>round_double (of_nat (shape1 img) * scale)\<rfloor> \<and> w \<le> maxW
              \<or> py_truediv maxW (int (shape1 img)) = Inr scale
                \<and> w = maxW
                \<and> h = \<lfloor>round_double (of_nat (shape0 img) * scale)\<rfloor> \<and> h \<le> maxH)"
proof -
  let ?H = "int (shape0 img)" and ?W = "int (shape1 img)"
  have H: "0 < ?H" and W: "0 < ?W" using dims by simp_all
  have nofit: "\<not> (?H \<le> maxH \<and> ?W \<le> maxW)" using big by auto
  then have nf: "(?H \<le> maxH \<and> ?W \<le> maxW) = False" by simp
  have unfold: "bound_image_to_size rs img (maxH, maxW) =
      bind_err (py_truediv maxH (max ?H maxH)) (\<lambda>lhs.
      bind_err (py_truediv maxW (max ?W maxW)) (\<lambda>rhs.
        if lhs < rhs then
          bind_err (py_truediv maxH ?H) (\<lambda>scale.
          bind_err (py_int_times ?W scale) (\<lambda>w. cv2_resize rs img (w, maxH)))
        else
          bind_err (py_truediv maxW ?W) (\<lambda>scale.
          bind_err (py_int_times ?H scale) (\<lambda>h. cv2_resize rs img (maxW, h)))))"
    by (simp only: bound_image_to_size_def fst_conv snd_conv nf if_False)
  obtain lhs where lhs: "py_truediv maxH (max ?H maxH) = Inr lhs" "0 \<le> lhs" "lhs \<le> 1"
      "?H \<le> maxH \<longrightarrow> lhs = 1" "maxH < ?H \<longrightarrow> lhs < 1"
    using py_truediv_max [of maxH ?H] bnd H by auto
  obtain rhs where rhs: "py_truediv maxW (max ?W maxW) = Inr rhs" "0 \<le> rhs" "rhs \<le> 1"
      "?W \<le> maxW \<longrightarrow> rhs = 1" "maxW < ?W \<longrightarrow> rhs < 1"
    using py_truediv_max [of maxW ?W] bnd W by auto
  have contract: "int (shape0 out) = h \<and> int (shape1 out) = w"
    if "cv2_resize rs img (w, h) = Inr out" for w h out
    using that rs by (auto simp: cv2_resize_def resize_contract_def split: sum.splits)
  show ?thesis
  proof (cases "lhs < rhs")
    case True
    then have gt: "maxH < ?H" using lhs(4) rhs(3) by auto
    from scale_core [OF H dims(2) W dims(4) bnd lhs(1) rhs(1) _ gt] True
    have c: "py_truediv maxH ?H = Inr lhs" "0 \<le> lhs" "lhs < 1"
        "py_int_times ?W lhs = Inr \<lfloor>round_double (of_nat (shape1 img) * lhs)\<rfloor>"
        "\<lfloor>round_double (of_nat (shape1 img) * lhs)\<rfloor> \<le> maxW"
      by simp_all
    have "bound_image_to_size rs img (maxH, maxW)
          = cv2_resize rs img (\<lfloor>round_double (of_nat (shape1 img) * lhs)\<rfloor>, maxH)"
      using lhs(1) rhs(1) True c(1,4) by (simp add: unfold bind_err_def)
    then show ?thesis using c contract by blast
  next
    case False
    then have le: "rhs \<le> lhs" by simp
    have gt: "maxW < ?W"
    proof (rule ccontr)
      assume "\<not> maxW < ?W"
      then have "?W \<le> maxW" by simp
      then have "lhs = 1" using rhs(4) le lhs(3) by simp
      then have "?H \<le> maxH" using lhs(5) by auto
      with \<open>?W \<le> maxW\<close> nofit show False by simp
    qed
    from scale_core [OF W dims(4) H dims(2) bnd(3,4) bnd(1,2) rhs(1) lhs(1) le gt]
    have c: "py_truediv maxW ?W = Inr rhs" "0 \<le> rhs" "rhs < 1"
        "py_int_times ?H rhs = Inr \<lfloor>round_double (of_nat (shape0 img) * rhs)\<rfloor>"
        "\<lfloor>round_double (of_nat (shape0 img) * rhs)\<rfloor> \<le> maxH"
      by simp_all
    have "bound_image_to_size rs img (maxH, maxW)
          = cv2_resize rs img (maxW, \<lfloor>round_double (of_nat (shape0 img) * rhs)\<rfloor>)"
      using lhs(1) rhs(1) False c(1,4) by (simp add: unfold bind_err_def)
    then show ?thesis using c contract by blast
  qed
qed

theorem bound_image_to_size_resizes_witness:
  "0 < shape0 (sample_image 300 1200) \<and> int (shape0 (sample_image 300 1200)) < 2 ^ 53
   \<and> 0 < shape1 (sample_image 300 1200) \<and> int (shape1 (sample_image 300 1200)) < 2 ^ 53
   \<and> (0::int) \<le> 200 \<and> (200::int) < 2 ^ 52 \<and> (0::int) \<le> 477 \<and> (477::int) < 2 ^ 52
   \<and> ((200::int) < int (shape0 (sample_image 300 1200))
        \<or> (477::int) < int (shape1 (sample_image 300 1200)))
   \<and> resize_contract nearest_resize
   \<and> (\<exists>scale w h.
         bound_image_to_size nearest_resize (sample_image 300 1200) (200, 477)
           = cv2_resize nearest_resize (sample_image 300 1200) (w, h)
         \<and> 0 \<le> scale \<and> scale < 1
         \<and> (py_truediv 200 300 = Inr scale \<and> h = 200 \<and> w \<le> 477
              \<or> py_truediv 477 1200 = Inr scale \<and> w = 477 \<and> h \<le> 200))"
proof -
  let ?img = "sample_image 300 1200"
  have h: "0 < shape0 ?img" "int (shape0 ?img) < 2 ^ 53"
      "0 < shape1 ?img" "int (shape1 ?img) < 2 ^ 53"
      "(0::int) \<le> 200" "(200::int) < 2 ^ 52" "(0::int) \<le> 477" "(477::int) < 2 ^ 52"
      "(200::int) < int (shape0 ?img) \<or> (477::int) < int (shape1 ?img)"
    by simp_all
  from bound_image_to_size_resizes [OF h nearest_resize_contract]
  obtain scale w h where
    "bound_image_to_size nearest_resize ?img (200, 477) = cv2_resize nearest_resize ?img (w, h)"
    "0 \<le> scale" "scale < 1"
    "py_truediv 200 (int (shape0 ?img)) = Inr scale \<and> h = 200 \<and> w \<le> 477
     \<or> py_truediv 477 (int (shape1 ?img)) = Inr scale \<and> w = 477 \<and> h \<le> 200"
    by blast
  then have "\<exists>scale w h.
         bound_image_to_size nearest_resize ?img (200, 477) = cv2_resize nearest_resize ?img (w, h)
         \<and> 0 \<le> scale \<and> scale < 1
         \<and> (py_truediv 200 300 = Inr scale \<and> h = 200 \<and> w \<le> 477
              \<or> py_truediv 477 1200 = Inr scale \<and> w = 477 \<and> h \<le> 200)"
    by (simp only: shape_sample) (simp, blast)
  with h nearest_resize_contract show ?thesis by blast
qed

text \<open>
  Claim C2, as the specification states it, fails: a 400 by 800 image (400 rows, 800
  columns) with the bound (200, 477) is not scaled to width 477 and height 238.
\<close>

theorem scenario_400x800_counterexample:
  "result_shape (bound_image_to_size nearest_resize (sample_image 400 800) (200, 477))
     = Inr (200, 400, 3)
   \<and> result_shape (bound_image_to_size nearest_resize (sample_image 400 800) (200, 477))
     \<noteq> Inr (238, 477, 3)"
  by (simp add: scaler_400x800 nearest_resize_shape)

text \<open>
  Claim C2, amended.  For a 400 by 800 image and the bound (200, 477) the height is the
  limiting dimension (200/400 is smaller than 477/800): the scale is 200/400 = 0.5, the
  scaler asks for height 200 and width \<open>\<lfloor>800 * 0.5\<rfloor> = 400\<close>, and an image the resizer returns
  has 200 rows and 400 columns.
\<close>

theorem scenario_400x800:
  assumes "shape0 img = 400" "shape1 img = 800"
  shows "py_truediv 200 400 = Inr (1 / 2)
         \<and> bound_image_to_size rs img (200, 477) = cv2_resize rs img (\<lfloor>800 * (1 / 2 :: rat)\<rfloor>, 200)
         \<and> (resize_contract rs \<longrightarrow>
              (\<forall>out. bound_image_to_size rs img (200, 477) = Inr out \<longrightarrow>
                 shape0 out = 200 \<and> shape1 out = 400))"
proof -
  have r: "bound_image_to_size rs img (200, 477) = cv2_resize rs img (400, 200)"
    using assms by (rule scaler_400x800)
  moreover have "shape0 out = 200 \<and> shape1 out = 400"
    if "resize_contract rs" "bound_image_to_size rs img (200, 477) = Inr out" for out
  proof -
    from that(2) r obtain "rs img (400, 200) = Inr out"
      by (auto simp: cv2_resize_def split: sum.splits)
    with that(1) have "int (shape0 out) = 200 \<and> int (shape1 out) = 400"
      unfolding resize_contract_def by blast
    then show ?thesis by simp
  qed
  ultimately show ?thesis by (simp add: truediv_200_400)
qed

theorem scenario_400x800_witness:
  "shape0 (sample_image 400 800) = 400 \<and> shape1 (sample_image 400 800) = 800
   \<and> resize_contract nearest_resize
   \<and> bound_image_to_size nearest_resize (sample_image 400 800) (200, 477)
       = cv2_resize nearest_resize (sample_image 400 800) (400, 200)"
proof -
  have h: "shape0 (sample_image 400 800) = 400" "shape1 (sample_image 400 800) = 800"
    by simp_all
  from scenario_400x800 [OF h, of nearest_resize] h nearest_resize_contract
  show ?thesis by simp
qed

text \<open>
  Claim C3.  An image whose height and width are both within the bound is returned
  unchanged; the resizer is not involved.
\<close>

theorem bound_image_to_size_identity:
  assumes "int (shape0 img) \<le> maxH" "int (shape1 img) \<le> maxW"
  shows "bound_image_to_size rs img (maxH, maxW) = Inr img"
  using assms by (simp add: bound_image_to_size_def)

theorem bound_image_to_size_identity_witness:
  "int (shape0 (sample_image 1 1)) \<le> 200 \<and> int (shape1 (sample_image 1 1)) \<le> 477
   \<and> bound_image_to_size nearest_resize (sample_image 1 1) (200, 477) = Inr (sample_image 1 1)"
proof -
  have h: "int (shape0 (sample_image 1 1)) \<le> 200" "int (shape1 (sample_image 1 1)) \<le> 477"
    by simp_all
  from bound_image_to_size_identity [OF h] h show ?thesis by simp
qed

text \<open>
  Claim C10.  There is a valid non-empty image that exceeds the bound in one dimension, one
  row of 1000 columns, for which the other target dimension \<open>\<lfloor>1 * (477 / 1000)\<rfloor>\<close> is 0:
  the scaler asks the resizer for the size 477 by 0, so whatever the resizer does, the
  outcome is an error or an image without rows.
\<close>

theorem zero_height_request:
  "valid_image (sample_image 1 1000)
   \<and> image_shape (sample_image 1 1000) = (1, 1000, 3)
   \<and> py_truediv 477 1000 = Inr (4296434044511453 / 9007199254740992)
   \<and> py_int_times 1 (4296434044511453 / 9007199254740992) = Inr 0
   \<and> (\<forall>rs. bound_image_to_size rs (sample_image 1 1000) MAX_SIZE
            = cv2_resize rs (sample_image 1 1000) (477, 0))
   \<and> (\<forall>rs. resize_contract rs \<longrightarrow>
         (case bound_image_to_size rs (sample_image 1 1000) MAX_SIZE of
            Inl e \<Rightarrow> True
          | Inr out \<Rightarrow> shape0 out = 0))"
proof -
  have r: "bound_image_to_size rs (sample_image 1 1000) MAX_SIZE
           = cv2_resize rs (sample_image 1 1000) (477, 0)" for rs
    by (simp add: MAX_SIZE_def scaler_1x1000)
  have "case bound_image_to_size rs (sample_image 1 1000) MAX_SIZE of
          Inl e \<Rightarrow> True | Inr out \<Rightarrow> shape0 out = 0"
    if "resize_contract rs" for rs
  proof (cases "rs (sample_image 1 1000) (477, 0)")
    case (Inl msg)
    then show ?thesis by (simp only: r cv2_resize_def sum.case)
  next
    case (Inr out)
    with that have "int (shape0 out) = 0" unfolding resize_contract_def by blast
    then have "shape0 out = 0" by simp
    then show ?thesis using Inr by (simp only: r cv2_resize_def sum.case)
  qed
  then show ?thesis
    using r by (simp add: valid_sample_image truediv_477_1000 int_times_1_scale)
qed

theorem zero_height_request_witness:
  "resize_contract nearest_resize
   \<and> bound_image_to_size nearest_resize (sample_image 1 1000) MAX_SIZE
       = Inl (Cv2Error ''empty target size'')"
proof -
  have "bound_image_to_size nearest_resize (sample_image 1 1000) MAX_SIZE
        = cv2_resize nearest_resize (sample_image 1 1000) (477, 0)"
    using zero_height_request by blast
  then show ?thesis by (simp add: nearest_resize_contract nearest_resize_empty)
qed

section \<open>Properties of the column namer\<close>

declare get_col_name_loop.simps [simp del]

subsection \<open>Unfolding the loop\<close>

lemma uppercase_nth: "k < 26 \<Longrightarrow> of_char (ascii_uppercase ! k) = (65::nat) + k"
proof -
  assume "k < 26"
  then have "k \<in> set [0..<26]" by simp
  then show ?thesis
    unfolding ascii_uppercase_def
    by (simp add: upt_rec) (elim disjE; simp)
qed

lemma letter_value_nth:
  "0 \<le> k \<Longrightarrow> k < 26 \<Longrightarrow> letter_value (ascii_uppercase ! nat k) = k + 1"
  using uppercase_nth [of "nat k"] by (simp add: letter_value_def)


lemma loop_pos:
  "0 < n \<Longrightarrow> get_col_name_loop n col =
     get_col_name_loop ((n - 1) div 26) ((ascii_uppercase ! nat ((n - 1) mod 26)) # col)"
  by (simp add: get_col_name_loop.simps [of n])

lemma loop_nonpos: "n \<le> 0 \<Longrightarrow> get_col_name_loop n col = col"
  by (simp add: get_col_name_loop.simps [of n])

lemma loop_append: "get_col_name_loop n col = get_col_name_loop n [] @ col"
proof (induction "nat n" arbitrary: n col rule: less_induct)
  case less
  show ?case
  proof (cases "0 < n")
    case True
    let ?q = "(n - 1) div 26"
    let ?c = "ascii_uppercase ! nat ((n - 1) mod 26)"
    have q: "nat ?q < nat n" using True by simp
    have "get_col_name_loop n col = get_col_name_loop ?q [] @ (?c # col)"
      using loop_pos [OF True] less [OF q, of "?c # col"] by simp
    moreover have "get_col_name_loop n [] = get_col_name_loop ?q [] @ [?c]"
      using loop_pos [OF True] less [OF q, of "[?c]"] by simp
    ultimately show ?thesis by simp
  next
    case False
    then show ?thesis by (simp add: loop_nonpos)
  qed
qed

lemma get_col_name_pos:
  "0 < n \<Longrightarrow> get_col_name n =
     get_col_name ((n - 1) div 26) @ [ascii_uppercase ! nat ((n - 1) mod 26)]"
  unfolding get_col_name_def
  using loop_pos [of n "[]"] loop_append [of "(n - 1) div 26" "[ascii_uppercase ! nat ((n - 1) mod 26)]"]
  by simp

lemma get_col_name_nonpos: "n \<le> 0 \<Longrightarrow> get_col_name n = []"
  by (simp add: get_col_name_def loop_nonpos)

lemma decode_snoc: "decode_col_name (s @ [c]) = decode_col_name s * 26 + letter_value c"
  by (simp add: decode_col_name_def)

lemma decode_get_col_name: "0 \<le> n \<Longrightarrow> decode_col_name (get_col_name n) = n"
proof (induction "nat n" arbitrary: n rule: less_induct)
  case less
  show ?case
  proof (cases "0 < n")
    case True
    let ?q = "(n - 1) div 26"
    let ?r = "(n - 1) mod 26"
    have q: "nat ?q < nat n" "0 \<le> ?q" using True by simp_all
    have "decode_col_name (get_col_name n) = ?q * 26 + (?r + 1)"
      using get_col_name_pos [OF True] less.hyps [OF q] letter_value_nth [of ?r]
      by (simp add: decode_snoc)
    also have "\<dots> = n" by presburger
    finally show ?thesis .
  next
    case False
    with less.prems have "n = 0" by simp
    then show ?thesis by (simp add: get_col_name_nonpos decode_col_name_def)
  qed
qed

lemma length_get_col_name_pos: "0 < n \<Longrightarrow> 0 < length (get_col_name n)"
  by (simp add: get_col_name_pos)

lemma lex_less_snoc:
  "length a = length b \<Longrightarrow>
   lex_less (a @ [x]) (b @ [y]) = (lex_less a b \<or> (a = b \<and> (of_char x :: nat) < of_char y))"
  by (induction a b rule: list_induct2) auto

lemma col_less_snoc:
  "col_less a b \<Longrightarrow> col_less (a @ [x]) (b @ [y])"
  by (auto simp: col_less_def lex_less_snoc)

lemma get_col_name_mono: "0 < i \<Longrightarrow> i < j \<Longrightarrow> col_less (get_col_name i) (get_col_name j)"
proof (induction "nat j" arbitrary: i j rule: less_induct)
  case less
  let ?qi = "(i - 1) div 26" and ?ri = "(i - 1) mod 26"
  let ?qj = "(j - 1) div 26" and ?rj = "(j - 1) mod 26"
  have j: "0 < j" using less.prems by simp
  have ni: "get_col_name i = get_col_name ?qi @ [ascii_uppercase ! nat ?ri]"
    using get_col_name_pos less.prems by simp
  have nj: "get_col_name j = get_col_name ?qj @ [ascii_uppercase ! nat ?rj]"
    using get_col_name_pos j by simp
  have le: "?qi \<le> ?qj" using less.prems by (simp add: zdiv_mono1)
  show ?case
  proof (cases "?qi = ?qj")
    case True
    have "?ri < ?rj" using True less.prems
      by (metis add_less_cancel_right diff_add_cancel div_mult_mod_eq add_less_cancel_left)
    then have "(of_char (ascii_uppercase ! nat ?ri) :: nat) < of_char (ascii_uppercase ! nat ?rj)"
      using uppercase_nth [of "nat ?ri"] uppercase_nth [of "nat ?rj"] by simp
    then show ?thesis using True by (simp add: ni nj col_less_def lex_less_snoc)
  next
    case False
    then have lt: "?qi < ?qj" using le by simp
    show ?thesis
    proof (cases "0 < ?qi")
      case True
      have "nat ?qj < nat j" using j by simp
      from less.hyps [OF this True lt] show ?thesis
        by (simp add: ni nj col_less_snoc)
    next
      case False
      then have "get_col_name ?qi = []" by (simp add: get_col_name_nonpos)
      moreover have "0 < length (get_col_name ?qj)"
        using False lt less.prems by (intro length_get_col_name_pos) simp
      ultimately show ?thesis by (simp add: ni nj col_less_def)
    qed
  qed
qed

subsection \<open>The claims about column names\<close>

text \<open>
  Claim C6.  \<open>get_col_name\<close> writes a positive number in bijective base 26: the last letter
  is the digit \<open>(n - 1) mod 26\<close> (A for 0, up to Z for 25), and the letters before it name
  \<open>(n - 1) div 26\<close>; a number that is not positive has the empty name.  In particular
  column 1 is A, 26 is Z, 27 is AA, 702 is ZZ and 703 is AAA.
\<close>

theorem get_col_name_examples:
  "(\<forall>n>0. get_col_name n
            = get_col_name ((n - 1) div 26) @ [ascii_uppercase ! nat ((n - 1) mod 26)])
   \<and> (\<forall>n\<le>0. get_col_name n = [])
   \<and> get_col_name 1 = ''A'' \<and> get_col_name 26 = ''Z'' \<and> get_col_name 27 = ''AA''
   \<and> get_col_name 702 = ''ZZ'' \<and> get_col_name 703 = ''AAA''"
proof -
  have "get_col_name 1 = ''A'' \<and> get_col_name 26 = ''Z'' \<and> get_col_name 27 = ''AA''
        \<and> get_col_name 702 = ''ZZ'' \<and> get_col_name 703 = ''AAA''"
    by (simp add: get_col_name_def get_col_name_loop.simps ascii_uppercase_def)
  then show ?thesis by (simp add: get_col_name_pos [symmetric] get_col_name_nonpos)
qed

theorem get_col_name_examples_witness:
  "(0::int) < 703 \<and> (0::int) \<le> 0
   \<and> get_col_name 703 = get_col_name 27 @ ''A'' \<and> get_col_name 0 = []"
proof -
  have pos: "(0::int) < 703" and nonpos: "(0::int) \<le> 0" by simp_all
  have "get_col_name 703
        = get_col_name ((703 - 1) div 26) @ [ascii_uppercase ! nat ((703 - 1) mod 26)]"
    using get_col_name_examples [THEN conjunct1, rule_format, OF pos] .
  moreover have "get_col_name 0 = []"
    using get_col_name_examples [THEN conjunct2, THEN conjunct1, rule_format, OF nonpos] .
  ultimately show ?thesis by (simp add: ascii_uppercase_def)
qed

text \<open>
  Claim C7.  \<open>get_col_name\<close> is injective on the positive integers, and decoding a
  generated name in bijective base 26 gives the number back.  Both hold for every positive
  \<open>n\<close>, in particular for \<open>1 \<le> n \<le> 18278\<close> (the names up to ZZZ).
\<close>

theorem get_col_name_roundtrip:
  "inj_on get_col_name {1..}
   \<and> inj_on get_col_name {1..18278}
   \<and> (\<forall>n\<ge>1. decode_col_name (get_col_name n) = n)"
proof -
  have rt: "decode_col_name (get_col_name n) = n" if "1 \<le> n" for n
    using that by (simp add: decode_get_col_name)
  have "inj_on get_col_name {1..}"
  proof (rule inj_onI)
    fix a b :: int
    assume a: "a \<in> {1..}" and b: "b \<in> {1..}" and eq: "get_col_name a = get_col_name b"
    have "a = decode_col_name (get_col_name a)" using a by (simp add: rt)
    also have "\<dots> = decode_col_name (get_col_name b)" by (simp only: eq)
    also have "\<dots> = b" using b by (simp add: rt)
    finally show "a = b" .
  qed
  moreover have "inj_on get_col_name {1..18278}"
  proof (rule inj_onI)
    fix a b :: int
    assume a: "a \<in> {1..18278}" and b: "b \<in> {1..18278}"
      and eq: "get_col_name a = get_col_name b"
    have "a = decode_col_name (get_col_name a)" using a by (simp add: rt)
    also have "\<dots> = decode_col_name (get_col_name b)" by (simp only: eq)
    also have "\<dots> = b" using b by (simp add: rt)
    finally show "a = b" .
  qed
  ultimately show ?thesis using rt by blast
qed

theorem get_col_name_roundtrip_witness:
  "(1::int) \<le> 18278 \<and> get_col_name 18278 = ''ZZZ''
   \<and> decode_col_name (get_col_name 18278) = 18278"
proof -
  have "(1::int) \<le> 18278" by simp
  moreover have "get_col_name 18278 = ''ZZZ''"
    by (simp add: get_col_name_def get_col_name_loop.simps ascii_uppercase_def)
  moreover have "decode_col_name (get_col_name 18278) = 18278"
    using get_col_name_roundtrip by simp
  ultimately show ?thesis by simp
qed

text \<open>
  Claim C8.  For \<open>n \<ge> 0\<close>, \<open>iter_col_names n\<close> yields exactly \<open>n\<close> names, the \<open>i\<close>-th
  (counting from 1) is \<open>get_col_name i\<close>, and the names come in strictly ascending
  spreadsheet column order.
\<close>

theorem iter_col_names_spec:
  assumes "0 \<le> n"
  shows "length (iter_col_names n) = nat n
         \<and> (\<forall>i. 1 \<le> i \<and> i \<le> n \<longrightarrow> iter_col_names n ! nat (i - 1) = get_col_name i)
         \<and> sorted_wrt col_less (iter_col_names n)"
proof -
  have len: "length (iter_col_names n) = nat n"
    using assms by (simp add: iter_col_names_def py_range_def)
  have nth: "iter_col_names n ! nat (i - 1) = get_col_name i" if "1 \<le> i" "i \<le> n" for i
    using that by (simp add: iter_col_names_def py_range_def)
  have "sorted_wrt (\<lambda>i j. col_less (get_col_name i) (get_col_name j)) [1..n]"
  proof (rule sorted_wrt_mono_rel [of _ "(<)"])
    fix i j :: int
    assume "i \<in> set [1..n]" "j \<in> set [1..n]" "i < j"
    then show "col_less (get_col_name i) (get_col_name j)"
      by (intro get_col_name_mono) simp_all
  qed simp
  then have "sorted_wrt col_less (iter_col_names n)"
    by (simp add: iter_col_names_def py_range_def sorted_wrt_map)
  with len nth show ?thesis by blast
qed

theorem iter_col_names_spec_witness:
  "(0::int) \<le> 28 \<and> length (iter_col_names 28) = 28
   \<and> iter_col_names 28 ! 26 = ''AA'' \<and> sorted_wrt col_less (iter_col_names 28)"
proof -
  have h: "(0::int) \<le> 28" by simp
  have "get_col_name 27 = ''AA''"
    by (simp add: get_col_name_def get_col_name_loop.simps ascii_uppercase_def)
  moreover have "iter_col_names 28 ! nat (27 - 1) = get_col_name 27"
    using iter_col_names_spec [OF h, THEN conjunct2, THEN conjunct1, rule_format, of 27]
    by simp
  ultimately show ?thesis using iter_col_names_spec [OF h] by simp
qed

section \<open>Properties of the grid writer\<close>

lemma rows_fold_row_heights:
  "rows (fold (\<lambda>i ws. ws\<lparr>row_heights := (row_heights ws)(i \<mapsto> v)\<rparr>) xs ws) = rows ws"
  by (induction xs arbitrary: ws) simp_all

lemma rows_fold_column_widths:
  "rows (fold (\<lambda>col ws. ws\<lparr>column_widths := (column_widths ws)(col \<mapsto> v)\<rparr>) xs ws) = rows ws"
  by (induction xs arbitrary: ws) simp_all

lemma rows_fold_append:
  "rows (fold (\<lambda>ch ws. ws_append (f ch) ws) chs ws) = rows ws @ map f chs"
  by (induction chs arbitrary: ws) (simp_all add: ws_append_def)

lemma rows_fold_fold_append:
  "rows (fold (\<lambda>r ws. fold (\<lambda>ch ws. ws_append (g r ch) ws) chs ws) rs ws)
   = rows ws @ concat (map (\<lambda>r. map (g r) chs) rs)"
  by (induction rs arbitrary: ws) (simp_all add: rows_fold_append)

lemma rows_write_img_to_ws:
  "rows (write_img_to_ws img ws)
   = rows ws @ concat (map (\<lambda>r. map (\<lambda>channel. map cell (img_slice img r channel))
                                      [0..<shape2 img]) [0..<shape0 img])"
  by (simp add: write_img_to_ws_def Let_def rows_fold_fold_append rows_fold_column_widths
      rows_fold_row_heights)

lemma length_concat_fixed:
  "(\<forall>xs \<in> set xss. length xs = k) \<Longrightarrow> length (concat xss) = length xss * k"
  by (induction xss) simp_all

lemma nth_concat_fixed:
  "(\<forall>xs \<in> set xss. length xs = k) \<Longrightarrow> i < length xss \<Longrightarrow> j < k \<Longrightarrow>
   concat xss ! (k * i + j) = xss ! i ! j"
proof (induction xss arbitrary: i)
  case Nil
  then show ?case by simp
next
  case (Cons xs xss)
  show ?case
  proof (cases i)
    case 0
    then show ?thesis using Cons.prems by (simp add: nth_append)
  next
    case (Suc i')
    then have "concat (xs # xss) ! (k * i + j) = concat xss ! (k * i' + j)"
      using Cons.prems by (simp add: nth_append)
    then show ?thesis using Cons.IH [of i'] Cons.prems Suc by simp
  qed
qed

lemma img_slice_valid:
  assumes "valid_image img" "r < shape0 img"
  shows "img_slice img r c = map (\<lambda>p. p ! c) (px img ! r)"
proof -
  have "length (px img ! r) = shape1 img"
    using assms by (simp add: valid_image_def list_all_length)
  then show ?thesis by (simp add: img_slice_def list_eq_iff_nth_eq)
qed

text \<open>
  Claim C4.  For an image of \<open>H\<close> rows, \<open>W\<close> columns and 3 channels, \<open>write_img_to_ws\<close>
  appends exactly \<open>3 * H\<close> rows of exactly \<open>W\<close> cells each to the worksheet, and the appended
  row number \<open>3 * r + c\<close> (counting from 0) holds, in column order, the channel-\<open>c\<close> values of
  image row \<open>r\<close>, unchanged.
\<close>

theorem write_img_to_ws_grid:
  assumes "valid_image img" and "shape2 img = 3"
  shows "\<exists>new. rows (write_img_to_ws img ws) = rows ws @ new
           \<and> length new = shape0 img * 3
           \<and> (\<forall>row \<in> set new. length row = shape1 img)
           \<and> (\<forall>r < shape0 img. \<forall>c < 3.
                  new ! (3 * r + c) = map cell (map (\<lambda>p. p ! c) (px img ! r))
                  \<and> map cell_value (new ! (3 * r + c)) = map (\<lambda>p. p ! c) (px img ! r))"
proof -
  let ?block = "\<lambda>r. map (\<lambda>channel. map cell (img_slice img r channel)) [0..<shape2 img]"
  let ?new = "concat (map ?block [0..<shape0 img])"
  have fixed: "\<forall>xs \<in> set (map ?block [0..<shape0 img]). length xs = 3"
    using assms(2) by simp
  have len: "length ?new = shape0 img * 3"
    using length_concat_fixed [OF fixed] by simp
  have width: "\<forall>row \<in> set ?new. length row = shape1 img"
    by (auto simp: img_slice_def)
  have nth: "?new ! (3 * r + c) = map cell (map (\<lambda>p. p ! c) (px img ! r))"
    if "r < shape0 img" "c < 3" for r c
  proof -
    have "?new ! (3 * r + c) = map ?block [0..<shape0 img] ! r ! c"
      using that by (intro nth_concat_fixed [OF fixed]) simp_all
    also have "\<dots> = map cell (img_slice img r c)" using that assms(2) by simp
    finally show ?thesis using that assms(1) by (simp only: img_slice_valid)
  qed
  have val: "map cell_value (map cell xs) = xs" for xs
    by (simp add: cell_def comp_def)
  show ?thesis
    by (rule exI [of _ ?new]) (simp add: rows_write_img_to_ws len width nth val del: map_map)
qed


theorem write_img_to_ws_grid_witness:
  "valid_image (sample_image 1 1) \<and> shape2 (sample_image 1 1) = 3
   \<and> map (map cell_value) (rows (write_img_to_ws (sample_image 1 1) (create_sheet ''Image'')))
       = [[0], [0], [255]]"
proof -
  let ?img = "sample_image 1 1"
  have h: "valid_image ?img" "shape2 ?img = 3" by (simp_all add: valid_sample_image)
  from write_img_to_ws_grid [OF h, of "create_sheet ''Image''"]
  obtain new where A: "rows (write_img_to_ws ?img (create_sheet ''Image''))
                       = rows (create_sheet ''Image'') @ new"
    and B: "length new = shape0 ?img * 3"
    and C: "\<forall>r < shape0 ?img. \<forall>c < 3.
              new ! (3 * r + c) = map cell (map (\<lambda>p. p ! c) (px ?img ! r))
              \<and> map cell_value (new ! (3 * r + c)) = map (\<lambda>p. p ! c) (px ?img ! r)"
    by blast
  have new: "rows (write_img_to_ws ?img (create_sheet ''Image'')) = new" "length new = 3"
    using A B by (simp_all add: create_sheet_def)
  have C0: "map cell_value (new ! (3 * 0 + c)) = map (\<lambda>p. p ! c) (px ?img ! 0)" if "c < 3" for c
  proof -
    have "0 < shape0 ?img" by simp
    with C that show ?thesis by blast
  qed
  have v: "map cell_value (new ! c) = [[0, 0, 255] ! c]" if "c < 3" for c
    using C0 [OF that] by (simp add: sample_image_def)
  obtain a b c where abc: "new = [a, b, c]"
    using new(2) by (auto simp: numeral_3_eq_3 length_Suc_conv)
  have "map cell_value a = [0]" "map cell_value b = [0]" "map cell_value c = [255]"
    using v [of 0] v [of 1] v [of 2] by (simp_all add: abc)
  then have "map (map cell_value) new = [[0], [0], [255]]" by (simp add: abc)
  then show ?thesis using h new(1) by simp
qed

section \<open>Properties of the color-rule applier\<close>



declare str_nat.simps [simp del]







section \<open>Properties of the program\<close>

lemma bind_err_neq:
  assumes "r \<noteq> Inl e" and "\<And>v. f v \<noteq> Inl e"
  shows "bind_err r f \<noteq> Inl e"
  using assms by (cases r) (simp_all add: bind_err_def)

lemma py_truediv_not_Exception: "py_truediv a b \<noteq> Inl (Exception m)"
  by (simp add: py_truediv_def Let_def)

lemma py_int_times_not_Exception: "py_int_times n s \<noteq> Inl (Exception m)"
  unfolding py_int_times_def
  by (rule bind_err_neq) (simp_all add: py_float_of_int_def py_int_def Let_def split: pyfloat.splits)

lemma cv2_resize_not_Exception: "cv2_resize rs img d \<noteq> Inl (Exception m)"
  by (simp add: cv2_resize_def split: sum.splits)

lemma if_neq: "a \<noteq> e \<Longrightarrow> b \<noteq> e \<Longrightarrow> (if c then a else b) \<noteq> e"
  by simp

lemma bound_image_to_size_not_Exception:
  "bound_image_to_size rs img sz \<noteq> Inl (Exception m)"
  unfolding bound_image_to_size_def
  by (intro if_neq bind_err_neq py_truediv_not_Exception py_int_times_not_Exception
      cv2_resize_not_Exception) simp

text \<open>
  Claim C9.  When the decoder returns no image, \<open>main\<close> ends with the exception
  \<^verbatim>\<open>Exception('Failed to load image "...".')\<close> and writes no file, whatever the resizer and
  the other collaborators are (they are not consulted); and \<open>main\<close> ends with an
  \<^verbatim>\<open>Exception\<close> of its own if and only if the decoder returns no image: every other failure
  is an arithmetic error or an error of the resizer.
\<close>

theorem main_decode_failure:
  "(imread env image_path = None \<longrightarrow>
      main env image_path output files = (Some (Exception (failed_to_load image_path)), files))
   \<and> ((\<exists>msg. fst (main env image_path output files) = Some (Exception msg))
        \<longleftrightarrow> imread env image_path = None)"
proof -
  have a: "main env image_path output files = (Some (Exception (failed_to_load image_path)), files)"
    if "imread env image_path = None"
    using that by (simp add: main_def)
  have b: "fst (main env image_path output files) \<noteq> Some (Exception msg)"
    if "imread env image_path = Some img" for img msg
    using that bound_image_to_size_not_Exception [of "resize env" img MAX_SIZE msg]
    by (cases "bound_image_to_size (resize env) img MAX_SIZE") (simp_all add: main_def Let_def)
  show ?thesis using a b by (cases "imread env image_path") auto
qed

theorem main_decode_failure_witness:
  "imread \<lparr>imread = \<lambda>p. None, resize = nearest_resize, path_stem = id\<rparr> ''missing.png'' = None
   \<and> main \<lparr>imread = \<lambda>p. None, resize = nearest_resize, path_stem = id\<rparr>
        ''missing.png'' None Map.empty
      = (Some (Exception (failed_to_load ''missing.png'')), Map.empty)"
proof -
  let ?env = "\<lparr>imread = \<lambda>p. None, resize = nearest_resize, path_stem = id\<rparr>"
  have h: "imread ?env ''missing.png'' = None" by simp
  from main_decode_failure [of ?env "''missing.png''" None Map.empty] h show ?thesis by blast
qed

end
